theory Spec2Isabelle
  imports Main "HOL-Library.Multiset"
begin

section \<open>Topology of the 9x9 grid (sudoku.py, lines 23-44)\<close>

text \<open>
  A square is an offset into the row-major grid of 81 squares.  The three tables
  \<open>rows\<close>, \<open>cols\<close> and \<open>boxes\<close> list the offsets of the nine rows, columns and boxes,
  exactly as the tuple comprehensions of the source build them.
\<close>

definition rows :: "nat list list" where
  "rows = map (\<lambda>i. [i ..< i + 9]) (map (\<lambda>k. 9 * k) [0 ..< 9])"

definition cols :: "nat list list" where
  "cols = map (\<lambda>i. map (\<lambda>k. i + 9 * k) [0 ..< 9]) [0 ..< 9]"

definition boxes :: "nat list list" where
  "boxes = map (\<lambda>i. [i, i + 1, i + 2, i + 9, i + 10, i + 11, i + 18, i + 19, i + 20])
             [0, 3, 6, 27, 30, 33, 54, 57, 60]"

text \<open>\<open>units[i]\<close>: the row, the column and the box holding square \<open>i\<close> (for \<open>i < 81\<close>).\<close>

definition units :: "nat \<Rightarrow> nat list list" where
  "units i = [rows ! (i div 9), cols ! (i mod 9), boxes ! (3 * (i div 27) + (i mod 9) div 3)]"

text \<open>
  \<open>aoe[i]\<close>: the squares sharing a unit with \<open>i\<close>, without \<open>i\<close> itself.  The source
  holds them in a Python set of small non-negative integers; the model lists them in
  ascending order, the order in which such a set is traversed.
\<close>

definition aoe :: "nat \<Rightarrow> nat list" where
  "aoe i = filter (\<lambda>x. x \<noteq> i \<and> x \<in> set (concat (units i))) [0 ..< 81]"

definition fullset :: string where
  "fullset = ''123456789''"

definition all_units :: "nat list list" where
  "all_units = rows @ cols @ boxes"

section \<open>Markups, results and exceptions\<close>

text \<open>
  A markup is the Python list of candidate strings, one string per square.  The order of
  the characters inside a string is kept, because \<open>solve\<close> iterates over it.
\<close>

type_synonym markup = "string list"

datatype exn = IndexError | UnboundLocalError

text \<open>
  What a call does: it returns a value (\<open>Ret None\<close> is Python's \<open>None\<close>, the FAIL
  result), raises an exception, or needs more nested calls than the depth budget allows.
\<close>

datatype 'a outcome = Ret 'a | Raise exn | OutOfFuel

text \<open>
  \<open>markup(grid)\<close>, lines 60-62.  For an empty square the source joins the Python set
  \<open>fullset - set(...)\<close>; the traversal order of a set of strings is fixed by the string
  hashes of the running interpreter, so it is a parameter \<open>ord\<close> of the model, applied
  to the remaining digits.  Reading \<open>grid[i]\<close> beyond the end raises \<open>IndexError\<close>.
\<close>

definition markup :: "(string \<Rightarrow> string) \<Rightarrow> string \<Rightarrow> exn + markup" where
  "markup ord grid =
     (if length grid < 81 then Inl IndexError
      else Inr (map (\<lambda>i. if grid ! i = CHR ''0''
                          then ord (filter (\<lambda>c. c \<notin> set (map (\<lambda>j. grid ! j) (aoe i))) fullset)
                          else [grid ! i]) [0 ..< 81]))"

text \<open>\<open>quick_check(grid)\<close>, lines 67-74: no unit holds the same fixed digit twice.\<close>

definition quick_check :: "string \<Rightarrow> bool" where
  "quick_check grid =
     list_all (\<lambda>s. let t = filter (\<lambda>c. c \<noteq> CHR ''0'') (map (\<lambda>i. grid ! i) s)
                   in length t = length (remdups t)) all_units"

section \<open>The propagator (sudoku.py, lines 80-123)\<close>

text \<open>
  \<open>all(f(x) for x in xs)\<close> where every \<open>f(x)\<close> works on the one shared list: the calls
  run in order on the list as the previous call left it, and the first \<open>None\<close> (or
  exception) ends the loop.
\<close>

fun all_ok :: "(markup \<Rightarrow> 'a \<Rightarrow> markup option outcome) \<Rightarrow> markup \<Rightarrow> 'a list
    \<Rightarrow> markup option outcome" where
  "all_ok f m [] = Ret (Some m)"
| "all_ok f m (x # xs) =
     (case f m x of
        Ret (Some m') \<Rightarrow> all_ok f m' xs
      | Ret None \<Rightarrow> Ret None
      | Raise e \<Rightarrow> Raise e
      | OutOfFuel \<Rightarrow> OutOfFuel)"

text \<open>
  One round of the loop of lines 99-108 for one unit of the square: the squares of the unit
  that still admit \<open>v\<close> are collected; none is a contradiction, a single one is
  assigned \<open>v\<close> (\<open>asg\<close> is the \<open>assign\<close> of the enclosing call).
\<close>

definition place_check :: "(markup \<Rightarrow> nat \<Rightarrow> char \<Rightarrow> markup option outcome) \<Rightarrow> char
    \<Rightarrow> markup \<Rightarrow> nat list \<Rightarrow> markup option outcome" where
  "place_check asg v m unit =
     (if list_ex (\<lambda>j. length m \<le> j) unit then Raise IndexError
      else
        let places = filter (\<lambda>j. v \<in> set (m ! j)) unit in
        if places = [] then Ret None
        else if length places = 1 then asg m (hd places) v
        else Ret (Some m))"

text \<open>
  \<open>eliminate\<close> and \<open>assign\<close>.  The first argument bounds the depth of nested calls: each
  call of either function uses one level.  The list is updated in place in the source and
  handed on explicitly here; \<open>v\<close> is a single character.
\<close>

fun eliminate :: "nat \<Rightarrow> markup \<Rightarrow> nat \<Rightarrow> char \<Rightarrow> markup option outcome"
and assign :: "nat \<Rightarrow> markup \<Rightarrow> nat \<Rightarrow> char \<Rightarrow> markup option outcome" where
  "eliminate 0 m i v = OutOfFuel"
| "eliminate (Suc n) m i v =
     (if length m \<le> i then Raise IndexError
      else if v \<notin> set (m ! i) then Ret (Some m)
      else
        let w = removeAll v (m ! i); m1 = m[i := w] in
        if w = [] then Ret None
        else
          (case (if length w = 1
                 then (if 81 \<le> i then Raise IndexError
                       else all_ok (\<lambda>m' j. eliminate n m' j (hd w)) m1 (aoe i))
                 else Ret (Some m1)) of
             Ret (Some m2) \<Rightarrow>
               if 81 \<le> i then Raise IndexError
               else all_ok (place_check (\<lambda>m' j c. assign n m' j c) v) m2 (units i)
           | Ret None \<Rightarrow> Ret None
           | Raise e \<Rightarrow> Raise e
           | OutOfFuel \<Rightarrow> OutOfFuel))"
| "assign 0 m i v = OutOfFuel"
| "assign (Suc n) m i v =
     (if length m \<le> i then Raise IndexError
      else all_ok (\<lambda>m' w. eliminate n m' i w) m (filter (\<lambda>w. w \<noteq> v) (m ! i)))"

section \<open>The search (sudoku.py, lines 125-159)\<close>

definition solved :: "markup \<Rightarrow> bool" where
  "solved m = list_all (\<lambda>s. length s = 1) m"

text \<open>
  The scan of lines 141-147.  \<open>min_i\<close> is unbound until the first square with more than
  one and fewer than \<open>min_len\<close> candidates is met, hence the option.
\<close>

fun scan :: "nat \<Rightarrow> nat option \<Rightarrow> nat \<Rightarrow> markup \<Rightarrow> nat option" where
  "scan min_len min_i i [] = min_i"
| "scan min_len min_i i (s # ss) =
     (if 1 < length s \<and> length s < min_len
      then (if length s = 2 then Some i else scan (length s) (Some i) (Suc i) ss)
      else scan min_len min_i (Suc i) ss)"

text \<open>The loop of lines 153-155: the first result that is not \<open>None\<close> is returned.\<close>

fun first_result :: "('a \<Rightarrow> markup option outcome) \<Rightarrow> 'a list \<Rightarrow> markup option outcome" where
  "first_result f [] = Ret None"
| "first_result f (v # vs) =
     (case f v of
        Ret (Some r) \<Rightarrow> Ret (Some r)
      | Ret None \<Rightarrow> first_result f vs
      | Raise e \<Rightarrow> Raise e
      | OutOfFuel \<Rightarrow> OutOfFuel)"

text \<open>
  \<open>solve\<close>.  Its argument is what \<open>assign\<close> returned, so it may be \<open>None\<close>.  The first
  number bounds the depth of nested \<open>solve\<close> calls, the second is the depth left to each
  propagation that \<open>solve\<close> starts.
\<close>

fun solve :: "nat \<Rightarrow> nat \<Rightarrow> markup option \<Rightarrow> markup option outcome" where
  "solve 0 p mo = OutOfFuel"
| "solve (Suc d) p None = Ret None"
| "solve (Suc d) p (Some m) =
     (if m = [] then Ret None
      else if solved m then Ret (Some m)
      else
        (case scan 9 None 0 m of
           None \<Rightarrow> Raise UnboundLocalError
         | Some min_i \<Rightarrow>
             first_result (\<lambda>v. case assign p m min_i v of
                                 Ret n \<Rightarrow> solve d p n
                               | Raise e \<Rightarrow> Raise e
                               | OutOfFuel \<Rightarrow> OutOfFuel)
               (m ! min_i)))"

section \<open>Vocabulary of the properties\<close>

text \<open>
  A candidate string shrinks when characters are struck out of it and it does not become
  empty by that; a markup shrinks when each of its strings does.
\<close>

definition cell_shrinks :: "string \<Rightarrow> string \<Rightarrow> bool" where
  "cell_shrinks s s' \<longleftrightarrow> (\<exists>P. s' = filter P s) \<and> (s' = [] \<longrightarrow> s = [])"

definition shrinks :: "markup \<Rightarrow> markup \<Rightarrow> bool" where
  "shrinks m m' \<longleftrightarrow> list_all2 cell_shrinks m m'"


text \<open>
  The markups of the data model: 81 candidate sets, each a non-empty set of digits, held as
  strings without repeated characters.
\<close>

definition valid_markup :: "markup \<Rightarrow> bool" where
  "valid_markup m \<longleftrightarrow> length m = 81 \<and> (\<forall>s\<in>set m. s \<noteq> [] \<and> distinct s \<and> set s \<subseteq> set fullset)"

text \<open>The number of candidates on the board, and the number of squares still open.\<close>

definition total :: "markup \<Rightarrow> nat" where
  "total m = sum_list (map length m)"

definition undetermined :: "markup \<Rightarrow> nat" where
  "undetermined m = length (filter (\<lambda>s. 1 < length s) m)"


text \<open>Example data: a solved grid, and the same grid with four squares left open.\<close>

definition example_solution :: string where
  "example_solution =
     ''534678912672195348198342567859761423426853791713924856961537284287419635345286179''"

definition example_puzzle :: string where
  "example_puzzle = example_solution[3 := CHR ''0'', 4 := CHR ''0'', 30 := CHR ''0'', 31 := CHR ''0'']"

definition rectangle_markup :: markup where
  "rectangle_markup =
     (map (\<lambda>c. [c]) example_solution)[3 := ''76'', 4 := ''67'', 30 := ''67'', 31 := ''76'']"

definition rectangle_swapped :: markup where
  "rectangle_swapped =
     map (\<lambda>c. [c]) (example_solution[3 := CHR ''7'', 4 := CHR ''6'', 30 := CHR ''6'', 31 := CHR ''7''])"

definition puzzle_markup :: markup where
  "puzzle_markup =
     (map (\<lambda>c. [c]) example_solution)[3 := ''67'', 4 := ''67'', 30 := ''67'', 31 := ''67'']"

definition solution_markup :: markup where
  "solution_markup = map (\<lambda>c. [c]) example_solution"

text \<open>
  When a square is down to one candidate, \<open>eliminate\<close> strikes that digit out of all its
  peers.  \<open>settled m k\<close>: no peer of \<open>k\<close> admits the digit of \<open>k\<close>; \<open>newly_settled m m'\<close>:
  every square that is determined in \<open>m'\<close> and was not in \<open>m\<close> is settled in \<open>m'\<close>.
\<close>

definition settled :: "markup \<Rightarrow> nat \<Rightarrow> bool" where
  "settled m k \<longleftrightarrow> (\<forall>j\<in>set (aoe k). hd (m ! k) \<notin> set (m ! j))"

definition newly_settled :: "markup \<Rightarrow> markup \<Rightarrow> bool" where
  "newly_settled m m' \<longleftrightarrow> (\<forall>k<81. length (m' ! k) = 1 \<and> length (m ! k) \<noteq> 1 \<longrightarrow> settled m' k)"

definition propagates :: "markup \<Rightarrow> markup \<Rightarrow> bool" where
  "propagates m m' \<longleftrightarrow> shrinks m m' \<and> newly_settled m m'"

text \<open>
  No unit holds the same digit in two determined squares (what \<open>quick_check\<close> asks of a
  grid, asked of a markup), and: a unit holds every digit exactly once.
\<close>

definition determined_distinct :: "markup \<Rightarrow> bool" where
  "determined_distinct m =
     list_all (\<lambda>u. distinct (filter (\<lambda>s. length s = 1) (map (\<lambda>j. m ! j) u))) all_units"

definition unit_complete :: "markup \<Rightarrow> nat list \<Rightarrow> bool" where
  "unit_complete m u = list_all (\<lambda>d. count_list (concat (map (\<lambda>j. m ! j) u)) d = 1) fullset"

text \<open>
  Line 154, one round of the search loop: \<open>solve(assign(m[:], min_i, v))\<close>.  The next two
  definitions are not in the source: they say what "the candidates in increasing numeric
  order" are, and what the search loop would return if it went through them in that order.
\<close>

definition branch :: "nat \<Rightarrow> nat \<Rightarrow> markup \<Rightarrow> nat \<Rightarrow> char \<Rightarrow> markup option outcome" where
  "branch d p m i v =
     (case assign p m i v of Ret n \<Rightarrow> solve d p n | Raise e \<Rightarrow> Raise e | OutOfFuel \<Rightarrow> OutOfFuel)"

definition ascending :: "string \<Rightarrow> string" where
  "ascending s = filter (\<lambda>c. c \<in> set s) fullset"

definition solve_ascending :: "nat \<Rightarrow> nat \<Rightarrow> markup \<Rightarrow> nat \<Rightarrow> markup option outcome" where
  "solve_ascending d p m i = first_result (branch d p m i) (ascending (m ! i))"

text \<open>More example boards: all blank, all ones, and the solved grid with a second 5 in row 0.\<close>

definition blank_board :: string where
  "blank_board = replicate 81 (CHR ''0'')"

definition ones_board :: string where
  "ones_board = replicate 81 (CHR ''1'')"

definition twin_board :: string where
  "twin_board = example_solution[1 := CHR ''5'']"

definition twin_markup :: markup where
  "twin_markup = map (\<lambda>c. [c]) twin_board"

section \<open>Propagation only strikes candidates out\<close>

lemma cell_shrinks_refl: "cell_shrinks s s"
proof -
  have "s = filter (\<lambda>_. True) s" by simp
  then show ?thesis unfolding cell_shrinks_def by blast
qed

lemma cell_shrinks_trans: "cell_shrinks a b \<Longrightarrow> cell_shrinks b c \<Longrightarrow> cell_shrinks a c"
proof -
  assume ab: "cell_shrinks a b" and bc: "cell_shrinks b c"
  from ab obtain P where P: "b = filter P a" unfolding cell_shrinks_def by blast
  from bc obtain Q where Q: "c = filter Q b" unfolding cell_shrinks_def by blast
  have "c = filter (\<lambda>x. P x \<and> Q x) a" using P Q by simp
  moreover have "c = [] \<longrightarrow> a = []" using ab bc unfolding cell_shrinks_def by blast
  ultimately show ?thesis unfolding cell_shrinks_def by blast
qed

lemma shrinks_refl: "shrinks m m"
  unfolding shrinks_def by (simp add: list_all2_refl cell_shrinks_refl)

lemma shrinks_trans: "shrinks a b \<Longrightarrow> shrinks b c \<Longrightarrow> shrinks a c"
  unfolding shrinks_def
  by (erule (1) list_all2_trans[rotated]) (erule (1) cell_shrinks_trans)

lemma shrinks_length: "shrinks m m' \<Longrightarrow> length m' = length m"
  unfolding shrinks_def by (simp add: list_all2_lengthD)

lemma shrinks_nth: "shrinks m m' \<Longrightarrow> k < length m \<Longrightarrow> cell_shrinks (m ! k) (m' ! k)"
  unfolding shrinks_def by (simp add: list_all2_nthD)

lemma shrinks_update:
  assumes "i < length m" and "v \<in> set (m ! i)" and "removeAll v (m ! i) \<noteq> []"
  shows "shrinks m (m[i := removeAll v (m ! i)])"
proof -
  have "cell_shrinks (m ! i) (removeAll v (m ! i))"
    using assms(3) unfolding cell_shrinks_def removeAll_filter_not_eq by blast
  then show ?thesis
    unfolding shrinks_def using assms(1)
    by (simp add: list_all2_conv_all_nth nth_list_update cell_shrinks_refl)
qed

lemma all_ok_invariant:
  assumes "all_ok f m xs = Ret (Some m')" and "P m"
    and "\<And>x a b. x \<in> set xs \<Longrightarrow> P a \<Longrightarrow> f a x = Ret (Some b) \<Longrightarrow> P b"
  shows "P m'"
  using assms
proof (induction xs arbitrary: m)
  case Nil
  then show ?case by simp
next
  case (Cons x xs)
  from Cons.prems(1) obtain a where a: "f m x = Ret (Some a)" and rest: "all_ok f a xs = Ret (Some m')"
    by (auto split: outcome.splits option.splits)
  have "P a" using Cons.prems(2) a Cons.prems(3)[of x m a] by simp
  show ?case
  proof (rule Cons.IH[OF rest \<open>P a\<close>])
    fix y c b assume "y \<in> set xs" "P c" "f c y = Ret (Some b)"
    then show "P b" using Cons.prems(3)[of y c b] by simp
  qed
qed


lemma all_ok_post:
  assumes "all_ok f m xs = Ret (Some m')" and "P m"
    and "\<And>x a b. x \<in> set xs \<Longrightarrow> P a \<Longrightarrow> f a x = Ret (Some b)
           \<Longrightarrow> P b \<and> Q x b \<and> (\<forall>y. Q y a \<longrightarrow> Q y b)"
  shows "P m' \<and> (\<forall>y. Q y m \<or> y \<in> set xs \<longrightarrow> Q y m')"
  using assms
proof (induction xs arbitrary: m)
  case Nil
  then show ?case by simp
next
  case (Cons x xs)
  from Cons.prems(1) obtain a where a: "f m x = Ret (Some a)" and rest: "all_ok f a xs = Ret (Some m')"
    by (auto split: outcome.splits option.splits)
  have st: "P a \<and> Q x a \<and> (\<forall>y. Q y m \<longrightarrow> Q y a)"
    using Cons.prems(2) a Cons.prems(3)[of x m a] by simp
  have "P m' \<and> (\<forall>y. Q y a \<or> y \<in> set xs \<longrightarrow> Q y m')"
  proof (rule Cons.IH[OF rest])
    show "P a" using st by simp
  next
    fix y c b assume "y \<in> set xs" "P c" "f c y = Ret (Some b)"
    then show "P b \<and> Q y b \<and> (\<forall>z. Q z c \<longrightarrow> Q z b)" using Cons.prems(3)[of y c b] by simp
  qed
  with st show ?case by auto
qed

lemma place_check_Some:
  assumes "place_check asg v m unit = Ret (Some m')"
  shows "m' = m \<or> (\<exists>j\<in>set unit. j < length m \<and> v \<in> set (m ! j) \<and> asg m j v = Ret (Some m'))"
proof -
  let ?places = "filter (\<lambda>j. v \<in> set (m ! j)) unit"
  from assms have bound: "\<forall>j\<in>set unit. j < length m"
    by (auto simp: place_check_def list_ex_iff split: if_splits)
  show ?thesis
  proof (cases "length ?places = 1")
    case True
    then have "?places \<noteq> []" by auto
    then have "hd ?places \<in> set ?places" by (rule hd_in_set)
    then have "hd ?places \<in> set unit" "v \<in> set (m ! hd ?places)" by auto
    moreover from assms True \<open>?places \<noteq> []\<close> have "asg m (hd ?places) v = Ret (Some m')"
      by (auto simp: place_check_def Let_def split: if_splits)
    ultimately show ?thesis using bound by blast
  next
    case False
    with assms show ?thesis by (auto simp: place_check_def Let_def split: if_splits)
  qed
qed

lemma eliminate_Some_cases:
  assumes "eliminate (Suc n) m i v = Ret (Some m')"
  obtains (unchanged) "i < length m" "v \<notin> set (m ! i)" "m' = m"
  | (removed) m2 where "i < length m" "i < 81" "v \<in> set (m ! i)" "removeAll v (m ! i) \<noteq> []"
      "length (removeAll v (m ! i)) = 1 \<Longrightarrow>
         all_ok (\<lambda>m' j. eliminate n m' j (hd (removeAll v (m ! i))))
           (m[i := removeAll v (m ! i)]) (aoe i) = Ret (Some m2)"
      "length (removeAll v (m ! i)) \<noteq> 1 \<Longrightarrow> m2 = m[i := removeAll v (m ! i)]"
      "all_ok (place_check (\<lambda>m' j c. assign n m' j c) v) m2 (units i) = Ret (Some m')"
  using assms
  by (auto simp: Let_def split: if_splits outcome.splits option.splits)

lemma assign_Some:
  assumes "assign (Suc n) m i v = Ret (Some m')"
  shows "i < length m"
    and "all_ok (\<lambda>m' w. eliminate n m' i w) m (filter (\<lambda>w. w \<noteq> v) (m ! i)) = Ret (Some m')"
  using assms by (auto split: if_splits)

declare eliminate.simps [simp del] assign.simps [simp del]

lemma propagate_shrinks:
  "(\<forall>m i v m'. eliminate n m i v = Ret (Some m') \<longrightarrow> shrinks m m') \<and>
   (\<forall>m i v m'. assign n m i v = Ret (Some m') \<longrightarrow> shrinks m m')"
proof (induction n)
  case 0
  show ?case by (simp add: eliminate.simps assign.simps)
next
  case (Suc n)
  have E: "\<And>a j c b. eliminate n a j c = Ret (Some b) \<Longrightarrow> shrinks a b"
    using Suc by blast
  have A: "\<And>a j c b. assign n a j c = Ret (Some b) \<Longrightarrow> shrinks a b"
    using Suc by blast
  have elim: "shrinks m m'" if h: "eliminate (Suc n) m i v = Ret (Some m')" for m i v m'
    using h
  proof (cases rule: eliminate_Some_cases)
    case unchanged
    then show ?thesis by (simp add: shrinks_refl)
  next
    case (removed m2)
    let ?w = "removeAll v (m ! i)"
    have s1: "shrinks m (m[i := ?w])"
      using removed(1,3,4) by (rule shrinks_update)
    have s2: "shrinks m m2"
    proof (cases "length ?w = 1")
      case True
      show ?thesis
        by (rule all_ok_invariant[OF removed(5)[OF True], where P = "shrinks m"])
           (auto intro: s1 shrinks_trans E)
    next
      case False
      with removed(6) s1 show ?thesis by simp
    qed
    show ?thesis
    proof (rule all_ok_invariant[OF removed(7), where P = "shrinks m"])
      show "shrinks m m2" by (rule s2)
    next
      fix x a b assume "shrinks m a" "place_check (\<lambda>m' j c. assign n m' j c) v a x = Ret (Some b)"
      then show "shrinks m b"
        using place_check_Some[of "\<lambda>m' j c. assign n m' j c" v a x b] A shrinks_trans by blast
    qed
  qed
  have asg: "shrinks m m'" if h: "assign (Suc n) m i v = Ret (Some m')" for m i v m'
    by (rule all_ok_invariant[OF assign_Some(2)[OF h], where P = "shrinks m"])
       (auto intro: shrinks_refl shrinks_trans E)
  from elim asg show ?case by blast
qed

lemma eliminate_shrinks: "eliminate n m i v = Ret (Some m') \<Longrightarrow> shrinks m m'"
  using propagate_shrinks by blast

lemma assign_shrinks: "assign n m i v = Ret (Some m') \<Longrightarrow> shrinks m m'"
  using propagate_shrinks by blast

lemma shrinks_set: "shrinks m m' \<Longrightarrow> k < length m \<Longrightarrow> set (m' ! k) \<subseteq> set (m ! k)"
  using shrinks_nth[of m m' k] by (auto simp: cell_shrinks_def)

lemma place_check_shrinks:
  "place_check (\<lambda>m' j c. assign n m' j c) v a x = Ret (Some b) \<Longrightarrow> shrinks a b"
  using place_check_Some[of "\<lambda>m' j c. assign n m' j c" v a x b] assign_shrinks shrinks_refl
  by blast

lemma eliminate_removes:
  assumes "eliminate n m i v = Ret (Some m')"
  shows "v \<notin> set (m' ! i)"
proof (cases n)
  case 0
  with assms show ?thesis by (simp add: eliminate.simps)
next
  case (Suc k)
  from assms[unfolded Suc] show ?thesis
  proof (cases rule: eliminate_Some_cases)
    case unchanged
    then show ?thesis by simp
  next
    case (removed m2)
    let ?w = "removeAll v (m ! i)"
    let ?m1 = "m[i := ?w]"
    have s2: "shrinks ?m1 m2"
    proof (cases "length ?w = 1")
      case True
      show ?thesis
        by (rule all_ok_invariant[OF removed(5)[OF True], where P = "shrinks ?m1"])
           (auto intro: shrinks_refl shrinks_trans eliminate_shrinks)
    next
      case False
      with removed(6) show ?thesis by (simp add: shrinks_refl)
    qed
    have "shrinks ?m1 m'"
      by (rule all_ok_invariant[OF removed(7), where P = "shrinks ?m1"])
         (auto intro: s2 shrinks_trans place_check_shrinks)
    then have "set (m' ! i) \<subseteq> set (?m1 ! i)"
      using removed(1) by (intro shrinks_set) simp_all
    then show ?thesis using removed(1) by auto
  qed
qed

lemma assign_removes_others:
  assumes "assign n m i v = Ret (Some m')"
  shows "set (m' ! i) \<subseteq> {v}"
proof (cases n)
  case 0
  with assms show ?thesis by (simp add: assign.simps)
next
  case (Suc k)
  note h = assms[unfolded Suc]
  have i: "i < length m" by (rule assign_Some(1)[OF h])
  have "shrinks m m' \<and> (\<forall>y. y \<notin> set (m ! i) \<or> y \<in> set (filter (\<lambda>w. w \<noteq> v) (m ! i))
          \<longrightarrow> y \<notin> set (m' ! i))"
  proof (rule all_ok_post[OF assign_Some(2)[OF h], where P = "shrinks m"
        and Q = "\<lambda>y a. y \<notin> set (a ! i)"])
    show "shrinks m m" by (rule shrinks_refl)
  next
    fix x a b
    assume a: "shrinks m a" and e: "eliminate k a i x = Ret (Some b)"
    have ab: "shrinks a b" using e by (rule eliminate_shrinks)
    have "set (b ! i) \<subseteq> set (a ! i)"
      using ab i shrinks_length[OF a] by (intro shrinks_set) simp_all
    then show "shrinks m b \<and> x \<notin> set (b ! i) \<and> (\<forall>y. y \<notin> set (a ! i) \<longrightarrow> y \<notin> set (b ! i))"
      using shrinks_trans[OF a ab] eliminate_removes[OF e] by auto
  qed
  then show ?thesis by auto
qed

lemma cell_shrinks_single: "cell_shrinks [c] s' \<Longrightarrow> s' = [c]"
  by (auto simp: cell_shrinks_def split: if_splits)

lemma cell_shrinks_length: "cell_shrinks s s' \<Longrightarrow> length s' \<le> length s"
  by (auto simp: cell_shrinks_def)

lemma cell_shrinks_distinct: "cell_shrinks s s' \<Longrightarrow> distinct s \<Longrightarrow> distinct s'"
  by (auto simp: cell_shrinks_def)

lemma shrinks_valid:
  assumes "shrinks m m'" and "valid_markup m"
  shows "valid_markup m'"
proof -
  have len: "length m' = 81" using assms by (simp add: shrinks_length valid_markup_def)
  have "s' \<noteq> [] \<and> distinct s' \<and> set s' \<subseteq> set fullset" if "s' \<in> set m'" for s'
  proof -
    from that obtain k where k: "k < length m'" "s' = m' ! k" by (auto simp: in_set_conv_nth)
    then have km: "k < length m" using assms(1) by (simp add: shrinks_length)
    then have c: "cell_shrinks (m ! k) s'" using assms(1) k by (simp add: shrinks_nth)
    have "m ! k \<in> set m" using km by simp
    then have "m ! k \<noteq> []" "distinct (m ! k)" "set (m ! k) \<subseteq> set fullset"
      using assms(2) by (auto simp: valid_markup_def)
    then show ?thesis using c by (auto simp: cell_shrinks_def)
  qed
  then show ?thesis using len by (simp add: valid_markup_def)
qed

lemma first_result_Some:
  "first_result f vs = Ret (Some r) \<Longrightarrow> \<exists>v\<in>set vs. f v = Ret (Some r)"
  by (induction vs) (auto split: outcome.splits option.splits)

lemma scan_Some:
  "scan ml mi k ss = Some i \<Longrightarrow>
     mi = Some i \<or> (k \<le> i \<and> i < k + length ss \<and> 1 < length (ss ! (i - k)))"
proof (induction ss arbitrary: ml mi k)
  case Nil
  then show ?case by simp
next
  case (Cons s ss)
  show ?case
  proof (cases "1 < length s \<and> length s < ml")
    case True
    show ?thesis
    proof (cases "length s = 2")
      case True
      with Cons.prems \<open>1 < length s \<and> length s < ml\<close> show ?thesis by auto
    next
      case False
      with Cons.prems True have "scan (length s) (Some k) (Suc k) ss = Some i" by simp
      from Cons.IH[OF this] True show ?thesis by (auto simp: nth_Cons')
    qed
  next
    case False
    with Cons.prems have "scan ml mi (Suc k) ss = Some i" by auto
    from Cons.IH[OF this] show ?thesis by (auto simp: nth_Cons')
  qed
qed

lemma scan_selects:
  "scan 9 None 0 m = Some i \<Longrightarrow> i < length m \<and> 1 < length (m ! i)"
  using scan_Some[of 9 None 0 m i] by auto

lemma solve_Some_cases:
  assumes "solve (Suc d) p (Some m) = Ret (Some m')"
  obtains (finished) "solved m" "m' = m"
  | (branch) i v n where "scan 9 None 0 m = Some i" "v \<in> set (m ! i)"
      "assign p m i v = Ret n" "solve d p n = Ret (Some m')"
proof (cases "solved m")
  case True
  with assms have "m' = m" by (auto split: if_splits)
  with True show ?thesis by (rule finished)
next
  case False
  with assms obtain i where i: "scan 9 None 0 m = Some i"
    and fr: "first_result (\<lambda>v. case assign p m i v of Ret n \<Rightarrow> solve d p n
                                 | Raise e \<Rightarrow> Raise e | OutOfFuel \<Rightarrow> OutOfFuel) (m ! i)
             = Ret (Some m')"
    by (auto split: if_splits option.splits)
  from first_result_Some[OF fr] obtain v where v: "v \<in> set (m ! i)"
    and c: "(case assign p m i v of Ret n \<Rightarrow> solve d p n
             | Raise e \<Rightarrow> Raise e | OutOfFuel \<Rightarrow> OutOfFuel) = Ret (Some m')"
    by blast
  from c obtain n where "assign p m i v = Ret n" "solve d p n = Ret (Some m')"
    by (cases "assign p m i v") simp_all
  with v have "v \<in> set (m ! i)" "assign p m i v = Ret n" "solve d p n = Ret (Some m')"
    by simp_all
  with i show ?thesis by (rule branch)
qed

lemma solve_invariant:
  assumes "solve d p (Some m) = Ret (Some m')" and "P m"
    and "\<And>a i v b. P a \<Longrightarrow> assign p a i v = Ret (Some b) \<Longrightarrow> P b"
  shows "P m' \<and> solved m'"
  using assms(1,2)
proof (induction d arbitrary: m)
  case 0
  then show ?case by simp
next
  case (Suc d)
  from Suc.prems(1) show ?case
  proof (cases rule: solve_Some_cases)
    case finished
    with Suc.prems(2) show ?thesis by simp
  next
    case (branch i v n)
    show ?thesis
    proof (cases n)
      case None
      with branch(4) show ?thesis by (cases d) simp_all
    next
      case (Some b)
      with branch(3) Suc.prems(2) have "P b" using assms(3) by blast
      with Suc.IH[of b] branch(4) Some show ?thesis by simp
    qed
  qed
qed

lemma solve_shrinks: "solve d p (Some m) = Ret (Some m') \<Longrightarrow> shrinks m m'"
  using solve_invariant[where P = "shrinks m"] shrinks_refl shrinks_trans assign_shrinks
  by blast

section \<open>Fixed squares of the initial markup\<close>

lemma markup_fixed:
  assumes "markup ord grid = Inr m" and "i < 81" and "grid ! i \<noteq> CHR ''0''"
  shows "length m = 81" and "m ! i = [grid ! i]"
proof -
  from assms(1) have m: "m = map (\<lambda>i. if grid ! i = CHR ''0''
                          then ord (filter (\<lambda>c. c \<notin> set (map (\<lambda>j. grid ! j) (aoe i))) fullset)
                          else [grid ! i]) [0 ..< 81]"
    by (auto simp: markup_def split: if_splits)
  show "length m = 81" by (simp add: m)
  show "m ! i = [grid ! i]" using assms(2,3) by (simp add: m del: upt_Suc)
qed

section \<open>Call depth\<close>

lemma shrinks_total: "shrinks m m' \<Longrightarrow> total m' \<le> total m"
  unfolding shrinks_def total_def
  by (induction rule: list_all2_induct) (auto dest: cell_shrinks_length)

lemma total_update:
  "i < length m \<Longrightarrow> length w < length (m ! i) \<Longrightarrow> total (m[i := w]) < total m"
  unfolding total_def
proof (induction m arbitrary: i)
  case Nil
  then show ?case by simp
next
  case (Cons s m)
  then show ?case by (cases i) auto
qed

lemma all_ok_fuel:
  assumes "P m"
    and "\<And>x a. x \<in> set xs \<Longrightarrow> P a \<Longrightarrow> f a x \<noteq> OutOfFuel"
    and "\<And>x a b. x \<in> set xs \<Longrightarrow> P a \<Longrightarrow> f a x = Ret (Some b) \<Longrightarrow> P b"
  shows "all_ok f m xs \<noteq> OutOfFuel"
  using assms
proof (induction xs arbitrary: m)
  case Nil
  then show ?case by simp
next
  case (Cons x xs)
  have nf: "f m x \<noteq> OutOfFuel" using Cons.prems(1) Cons.prems(2)[of x m] by simp
  show ?case
  proof (cases "f m x")
    case (Ret r)
    show ?thesis
    proof (cases r)
      case None
      with Ret show ?thesis by simp
    next
      case (Some a)
      have "P a" using Cons.prems(1) Cons.prems(3)[of x m a] Ret Some by simp
      have "all_ok f a xs \<noteq> OutOfFuel"
      proof (rule Cons.IH[OF \<open>P a\<close>])
        fix y c assume "y \<in> set xs" "P c"
        then show "f c y \<noteq> OutOfFuel" using Cons.prems(2)[of y c] by simp
      next
        fix y c b assume "y \<in> set xs" "P c" "f c y = Ret (Some b)"
        then show "P b" using Cons.prems(3)[of y c b] by simp
      qed
      with Ret Some show ?thesis by simp
    qed
  next
    case (Raise e)
    then show ?thesis by simp
  next
    case OutOfFuel
    with nf show ?thesis by simp
  qed
qed

lemma place_check_fuel:
  "(\<And>j. asg a j v \<noteq> OutOfFuel) \<Longrightarrow> place_check asg v a unit \<noteq> OutOfFuel"
  by (simp add: place_check_def Let_def)

lemma propagate_fuel:
  "(\<forall>m i v. 2 * total m < n \<longrightarrow> eliminate n m i v \<noteq> OutOfFuel) \<and>
   (\<forall>m i v. 2 * total m + 1 < n \<longrightarrow> assign n m i v \<noteq> OutOfFuel)"
proof (induction n)
  case 0
  show ?case by simp
next
  case (Suc n)
  have E: "\<And>a j c. 2 * total a < n \<Longrightarrow> eliminate n a j c \<noteq> OutOfFuel"
    using Suc by blast
  have A: "\<And>a j c. 2 * total a + 1 < n \<Longrightarrow> assign n a j c \<noteq> OutOfFuel"
    using Suc by blast
  have elim: "eliminate (Suc n) m i v \<noteq> OutOfFuel" if b: "2 * total m < Suc n" for m i v
  proof (cases "i < length m \<and> v \<in> set (m ! i) \<and> removeAll v (m ! i) \<noteq> [] \<and> i < 81")
    case False
    then show ?thesis by (auto simp: eliminate.simps Let_def split: outcome.splits option.splits)
  next
    case True
    let ?w = "removeAll v (m ! i)"
    let ?m1 = "m[i := ?w]"
    have "length ?w < length (m ! i)" using True by (simp add: length_removeAll_less)
    then have "total ?m1 < total m" using True by (simp add: total_update)
    then have b1: "2 * total ?m1 + 1 < n" using b by simp
    have small: "2 * total a + 1 < n" if "shrinks ?m1 a" for a
      using shrinks_total[OF that] b1 by simp
    have loop1: "all_ok (\<lambda>m' j. eliminate n m' j (hd ?w)) ?m1 (aoe i) \<noteq> OutOfFuel"
    proof (rule all_ok_fuel[where P = "shrinks ?m1"])
      show "shrinks ?m1 ?m1" by (rule shrinks_refl)
    next
      fix x a assume "shrinks ?m1 a"
      then show "eliminate n a x (hd ?w) \<noteq> OutOfFuel" using small[of a] E by simp
    next
      fix x a b' assume "shrinks ?m1 a" "eliminate n a x (hd ?w) = Ret (Some b')"
      then show "shrinks ?m1 b'" using eliminate_shrinks shrinks_trans by blast
    qed
    have loop2: "all_ok (place_check (\<lambda>m' j c. assign n m' j c) v) m2 (units i) \<noteq> OutOfFuel"
      if "shrinks ?m1 m2" for m2
    proof (rule all_ok_fuel[where P = "shrinks ?m1"])
      show "shrinks ?m1 m2" by (rule that)
    next
      fix x a assume "shrinks ?m1 a"
      then show "place_check (\<lambda>m' j c. assign n m' j c) v a x \<noteq> OutOfFuel"
        using small[of a] A by (intro place_check_fuel) simp
    next
      fix x a b' assume "shrinks ?m1 a" "place_check (\<lambda>m' j c. assign n m' j c) v a x = Ret (Some b')"
      then show "shrinks ?m1 b'" using place_check_shrinks shrinks_trans by blast
    qed
    have m2: "shrinks ?m1 m2"
      if "(if length ?w = 1 then all_ok (\<lambda>m' j. eliminate n m' j (hd ?w)) ?m1 (aoe i)
           else Ret (Some ?m1)) = Ret (Some m2)" for m2
    proof (cases "length ?w = 1")
      case True
      with that have "all_ok (\<lambda>m' j. eliminate n m' j (hd ?w)) ?m1 (aoe i) = Ret (Some m2)" by simp
      then show ?thesis
        by (rule all_ok_invariant[where P = "shrinks ?m1"])
           (auto intro: shrinks_refl shrinks_trans eliminate_shrinks)
    next
      case False
      with that show ?thesis by (simp add: shrinks_refl)
    qed
    show ?thesis
      using True loop1 loop2 m2
      by (auto simp: eliminate.simps Let_def split: outcome.splits option.splits)
  qed
  have asg: "assign (Suc n) m i v \<noteq> OutOfFuel" if b: "2 * total m + 1 < Suc n" for m i v
  proof -
    have "all_ok (\<lambda>m' w. eliminate n m' i w) m (filter (\<lambda>w. w \<noteq> v) (m ! i)) \<noteq> OutOfFuel"
    proof (rule all_ok_fuel[where P = "shrinks m"])
      show "shrinks m m" by (rule shrinks_refl)
    next
      fix x a assume "shrinks m a"
      then show "eliminate n a i x \<noteq> OutOfFuel" using shrinks_total[of m a] b E by simp
    next
      fix x a b' assume "shrinks m a" "eliminate n a i x = Ret (Some b')"
      then show "shrinks m b'" using eliminate_shrinks shrinks_trans by blast
    qed
    then show ?thesis by (simp add: assign.simps)
  qed
  from elim asg show ?case by blast
qed

lemma first_result_fuel:
  "(\<And>v. v \<in> set vs \<Longrightarrow> f v \<noteq> OutOfFuel) \<Longrightarrow> first_result f vs \<noteq> OutOfFuel"
  by (induction vs) (auto split: outcome.splits option.splits)

lemma undetermined_mono:
  "list_all2 (\<lambda>s s'. length s' \<le> length s) m m' \<Longrightarrow> undetermined m' \<le> undetermined m"
  unfolding undetermined_def
  by (induction rule: list_all2_induct) auto

lemma undetermined_less:
  assumes "list_all2 (\<lambda>s s'. length s' \<le> length s) m m'"
    and "i < length m" and "1 < length (m ! i)" and "length (m' ! i) \<le> 1"
  shows "undetermined m' < undetermined m"
  using assms
proof (induction arbitrary: i rule: list_all2_induct)
  case Nil
  then show ?case by simp
next
  case (Cons s m s' m')
  show ?case
  proof (cases i)
    case 0
    with Cons.prems have "1 < length s" "length s' \<le> 1" by simp_all
    moreover have "undetermined m' \<le> undetermined m" using Cons.hyps(2) by (rule undetermined_mono)
    ultimately show ?thesis by (simp add: undetermined_def)
  next
    case (Suc k)
    with Cons.prems have "undetermined m' < undetermined m" by (intro Cons.IH[of k]) simp_all
    with Cons.hyps(1) show ?thesis by (simp add: undetermined_def)
  qed
qed

lemma shrinks_lengths: "shrinks m m' \<Longrightarrow> list_all2 (\<lambda>s s'. length s' \<le> length s) m m'"
  unfolding shrinks_def by (erule list_all2_mono) (rule cell_shrinks_length)

lemma shrinks_all_distinct:
  assumes "shrinks m m'" and "\<forall>s\<in>set m. distinct s"
  shows "\<forall>s\<in>set m'. distinct s"
proof
  fix s' assume "s' \<in> set m'"
  then obtain k where k: "k < length m'" "s' = m' ! k" by (auto simp: in_set_conv_nth)
  then have km: "k < length m" using assms(1) by (simp add: shrinks_length)
  then have "cell_shrinks (m ! k) s'" using assms(1) k by (simp add: shrinks_nth)
  moreover have "distinct (m ! k)" using km assms(2) by simp
  ultimately show "distinct s'" by (rule cell_shrinks_distinct)
qed

lemma assign_determines:
  assumes "assign p m i v = Ret (Some m')" and "\<forall>s\<in>set m. distinct s"
    and "i < length m" and "1 < length (m ! i)"
  shows "undetermined m' < undetermined m"
proof -
  have sh: "shrinks m m'" using assms(1) by (rule assign_shrinks)
  have "m' ! i \<in> set m'" using assms(3) shrinks_length[OF sh] by simp
  then have d: "distinct (m' ! i)" using shrinks_all_distinct[OF sh assms(2)] by blast
  have "set (m' ! i) \<subseteq> {v}" using assms(1) by (rule assign_removes_others)
  then have "card (set (m' ! i)) \<le> card {v}" by (intro card_mono) simp_all
  then have "length (m' ! i) \<le> 1" using d by (simp add: distinct_card)
  with shrinks_lengths[OF sh] assms(3,4) show ?thesis by (rule undetermined_less)
qed

lemma solve_fuel:
  "(\<forall>s\<in>set m. distinct s) \<Longrightarrow> undetermined m < d \<Longrightarrow> 2 * total m + 1 < p
   \<Longrightarrow> solve d p (Some m) \<noteq> OutOfFuel"
proof (induction d arbitrary: m)
  case 0
  then show ?case by simp
next
  case (Suc d)
  show ?case
  proof (cases "scan 9 None 0 m")
    case None
    then show ?thesis by simp
  next
    case (Some i)
    from scan_selects[OF Some] have i: "i < length m" "1 < length (m ! i)" by simp_all
    have pos: "0 < undetermined m"
    proof -
      have "m ! i \<in> set (filter (\<lambda>s. 1 < length s) m)" using i by simp
      then show ?thesis unfolding undetermined_def by (metis length_pos_if_in_set)
    qed
    have branch: "(case assign p m i v of Ret n \<Rightarrow> solve d p n
                    | Raise e \<Rightarrow> Raise e | OutOfFuel \<Rightarrow> OutOfFuel) \<noteq> OutOfFuel" for v
    proof (cases "assign p m i v")
      case (Ret n)
      show ?thesis
      proof (cases n)
        case None
        obtain d' where "d = Suc d'" using pos Suc.prems(2) by (cases d) simp_all
        with Ret None show ?thesis by simp
      next
        case (Some m')
        have a: "assign p m i v = Ret (Some m')" using Ret Some by simp
        have sh: "shrinks m m'" using a by (rule assign_shrinks)
        have "undetermined m' < undetermined m"
          using a Suc.prems(1) i by (rule assign_determines)
        then have "undetermined m' < d" using Suc.prems(2) by simp
        moreover have "2 * total m' + 1 < p" using shrinks_total[OF sh] Suc.prems(3) by simp
        moreover have "\<forall>s\<in>set m'. distinct s" using sh Suc.prems(1) by (rule shrinks_all_distinct)
        ultimately have "solve d p (Some m') \<noteq> OutOfFuel" using Suc.IH by blast
        with Ret Some show ?thesis by simp
      qed
    next
      case (Raise e)
      then show ?thesis by simp
    next
      case OutOfFuel
      moreover have "assign p m i v \<noteq> OutOfFuel" using propagate_fuel Suc.prems(3) by blast
      ultimately show ?thesis by simp
    qed
    have "first_result (\<lambda>v. case assign p m i v of Ret n \<Rightarrow> solve d p n
                    | Raise e \<Rightarrow> Raise e | OutOfFuel \<Rightarrow> OutOfFuel) (m ! i) \<noteq> OutOfFuel"
      by (rule first_result_fuel) (rule branch)
    with Some show ?thesis by simp
  qed
qed

lemma valid_total: "valid_markup m \<Longrightarrow> total m \<le> 729"
proof -
  assume v: "valid_markup m"
  have "length s \<le> 9" if "s \<in> set m" for s
  proof -
    from that v have d: "distinct s" and sub: "set s \<subseteq> set fullset" by (auto simp: valid_markup_def)
    have "card (set s) \<le> card (set fullset)" using sub by (intro card_mono) simp_all
    moreover have "card (set fullset) = 9" by (simp add: fullset_def)
    ultimately show ?thesis using d by (simp add: distinct_card)
  qed
  then have "sum_list (map length m) \<le> sum_list (map (\<lambda>_. 9) m)"
    by (intro sum_list_mono) simp
  also have "\<dots> = 9 * length m" by (simp add: sum_list_triv)
  finally show ?thesis using v by (simp add: total_def valid_markup_def)
qed

lemma undetermined_le: "undetermined m \<le> length m"
  by (simp add: undetermined_def)

section \<open>Units and peers\<close>

lemma units_cover_table:
  "list_all (\<lambda>u. length u = 9 \<and> distinct u \<and> list_all (\<lambda>k. k < 81 \<and> u \<in> set (units k)) u) all_units"
  by code_simp

lemma units_in_table:
  "list_all (\<lambda>k. list_all (\<lambda>u. u \<in> set all_units \<and> k \<in> set u) (units k)) [0 ..< 81]"
  by code_simp

lemma unit_facts:
  assumes "u \<in> set all_units"
  shows "length u = 9" and "distinct u" and "k \<in> set u \<Longrightarrow> k < 81"
    and "k \<in> set u \<Longrightarrow> u \<in> set (units k)"
  using assms units_cover_table by (auto simp: list_all_iff)

lemma units_facts:
  assumes "k < 81" and "u \<in> set (units k)"
  shows "u \<in> set all_units" and "k \<in> set u"
  using assms units_in_table by (auto simp: list_all_iff)

lemma aoe_bound: "j \<in> set (aoe k) \<Longrightarrow> j < 81"
  by (simp add: aoe_def del: upt_Suc)

lemma aoe_iff: "j \<in> set (aoe k) \<longleftrightarrow> j \<noteq> k \<and> j < 81 \<and> (\<exists>u\<in>set (units k). j \<in> set u)"
  by (auto simp: aoe_def simp del: upt_Suc)

lemma same_unit_aoe:
  assumes "u \<in> set all_units" and "j \<in> set u" and "k \<in> set u" and "j \<noteq> k"
  shows "j \<in> set (aoe k)"
  using unit_facts(3,4)[OF assms(1)] assms(2,3,4) by (auto simp: aoe_iff)

lemma aoe_same_unit:
  assumes "k < 81" and "j \<in> set (aoe k)"
  obtains u where "u \<in> set all_units" "j \<in> set u" "k \<in> set u" "j \<noteq> k"
  using assms units_facts[OF assms(1)] by (auto simp: aoe_iff)

lemma aoe_sym:
  assumes "k < 81" and "j \<in> set (aoe k)"
  shows "k \<in> set (aoe j)"
proof -
  from assms obtain u where u: "u \<in> set all_units" "j \<in> set u" "k \<in> set u" "j \<noteq> k"
    by (rule aoe_same_unit)
  from u(4) have "k \<noteq> j" by simp
  with u(1) u(3) u(2) show ?thesis by (rule same_unit_aoe)
qed

section \<open>Determined squares are settled\<close>

lemma length_one: "length s = 1 \<Longrightarrow> s = [hd s]"
  by (cases s) auto

lemma cell_shrinks_one: "cell_shrinks s s' \<Longrightarrow> length s = 1 \<Longrightarrow> s' = s"
  using cell_shrinks_single[of "hd s" s'] length_one[of s] by simp

lemma propagates_refl: "propagates m m"
  by (simp add: propagates_def shrinks_refl newly_settled_def)

lemma propagates_trans:
  assumes "length a = 81" and ab: "propagates a b" and bc: "propagates b c"
  shows "propagates a c"
proof -
  have sab: "shrinks a b" and sbc: "shrinks b c" using ab bc by (simp_all add: propagates_def)
  have lb: "length b = 81" using sab assms(1) by (simp add: shrinks_length)
  have "settled c k" if k: "k < 81" and c1: "length (c ! k) = 1" and a1: "length (a ! k) \<noteq> 1" for k
  proof (cases "length (b ! k) = 1")
    case True
    then have sb: "settled b k" using ab k a1 by (simp add: propagates_def newly_settled_def)
    have eq: "c ! k = b ! k"
      using shrinks_nth[OF sbc, of k] k lb True by (simp add: cell_shrinks_one)
    show ?thesis
      unfolding settled_def
    proof
      fix j assume j: "j \<in> set (aoe k)"
      then have "j < length b" using aoe_bound lb by simp
      then have "set (c ! j) \<subseteq> set (b ! j)" using sbc by (rule shrinks_set[rotated])
      moreover have "hd (b ! k) \<notin> set (b ! j)" using sb j by (simp add: settled_def)
      ultimately show "hd (c ! k) \<notin> set (c ! j)" using eq by auto
    qed
  next
    case False
    then show ?thesis using bc k c1 by (simp add: propagates_def newly_settled_def)
  qed
  then have "newly_settled a c" by (simp add: newly_settled_def)
  then show ?thesis using shrinks_trans[OF sab sbc] by (simp add: propagates_def)
qed

lemma propagates_length: "propagates m a \<Longrightarrow> length a = length m"
  by (simp add: propagates_def shrinks_length)

lemma propagate_settles:
  "(\<forall>m i v m'. length m = 81 \<longrightarrow> eliminate n m i v = Ret (Some m') \<longrightarrow> propagates m m') \<and>
   (\<forall>m i v m'. length m = 81 \<longrightarrow> assign n m i v = Ret (Some m') \<longrightarrow> propagates m m')"
proof (induction n)
  case 0
  show ?case by (simp add: eliminate.simps assign.simps)
next
  case (Suc n)
  have E: "\<And>a j c b. length a = 81 \<Longrightarrow> eliminate n a j c = Ret (Some b) \<Longrightarrow> propagates a b"
    using Suc by blast
  have A: "\<And>a j c b. length a = 81 \<Longrightarrow> assign n a j c = Ret (Some b) \<Longrightarrow> propagates a b"
    using Suc by blast
  have elim: "propagates m m'"
    if len: "length m = 81" and h: "eliminate (Suc n) m i v = Ret (Some m')" for m i v m'
    using h
  proof (cases rule: eliminate_Some_cases)
    case unchanged
    then show ?thesis by (simp add: propagates_refl)
  next
    case (removed m2)
    define w where "w = removeAll v (m ! i)"
    define m1 where "m1 = m[i := w]"
    have len1: "length m1 = 81" using len by (simp add: m1_def)
    have s1: "shrinks m m1"
      unfolding m1_def w_def using removed(1,3,4) by (rule shrinks_update)
    have m1i: "m1 ! i = w" using removed(1) by (simp add: m1_def)
    have m1k: "m1 ! k = m ! k" if "k \<noteq> i" for k using that by (simp add: m1_def)
    have p2: "propagates m m2"
    proof (cases "length w = 1")
      case True
      have loop: "all_ok (\<lambda>m' j. eliminate n m' j (hd w)) m1 (aoe i) = Ret (Some m2)"
        using removed(5) True by (simp add: w_def m1_def)
      have post: "propagates m1 m2 \<and>
          (\<forall>y. (y < 81 \<longrightarrow> hd w \<notin> set (m1 ! y)) \<or> y \<in> set (aoe i)
               \<longrightarrow> (y < 81 \<longrightarrow> hd w \<notin> set (m2 ! y)))"
      proof (rule all_ok_post[OF loop, where P = "propagates m1"
            and Q = "\<lambda>y a. y < 81 \<longrightarrow> hd w \<notin> set (a ! y)"])
        show "propagates m1 m1" by (rule propagates_refl)
      next
        fix x a b
        assume pa: "propagates m1 a" and e: "eliminate n a x (hd w) = Ret (Some b)"
        have la: "length a = 81" using propagates_length[OF pa] len1 by simp
        have pab: "propagates a b" using la e by (rule E)
        have sab: "shrinks a b" using e by (rule eliminate_shrinks)
        have "propagates m1 b" using len1 pa pab by (rule propagates_trans)
        moreover have "x < 81 \<longrightarrow> hd w \<notin> set (b ! x)" using eliminate_removes[OF e] by simp
        moreover have "\<forall>y. (y < 81 \<longrightarrow> hd w \<notin> set (a ! y)) \<longrightarrow> (y < 81 \<longrightarrow> hd w \<notin> set (b ! y))"
          using shrinks_set[OF sab] la by auto
        ultimately show "propagates m1 b \<and> (x < 81 \<longrightarrow> hd w \<notin> set (b ! x)) \<and>
          (\<forall>y. (y < 81 \<longrightarrow> hd w \<notin> set (a ! y)) \<longrightarrow> (y < 81 \<longrightarrow> hd w \<notin> set (b ! y)))"
          by blast
      qed
      then have p12: "propagates m1 m2"
        and peers: "\<And>j. j \<in> set (aoe i) \<Longrightarrow> hd w \<notin> set (m2 ! j)"
        using aoe_bound by blast+
      have s12: "shrinks m1 m2" using p12 by (simp add: propagates_def)
      have m2i: "m2 ! i = w"
        using shrinks_nth[OF s12, of i] removed(1) len len1 m1i True
        by (simp add: cell_shrinks_one)
      have "settled m2 k" if k: "k < 81" and c1: "length (m2 ! k) = 1"
        and a1: "length (m ! k) \<noteq> 1" for k
      proof (cases "k = i")
        case True
        then show ?thesis using peers m2i by (simp add: settled_def)
      next
        case False
        then have "length (m1 ! k) \<noteq> 1" using a1 m1k by simp
        then show ?thesis using p12 k c1 by (simp add: propagates_def newly_settled_def)
      qed
      then have "newly_settled m m2" by (simp add: newly_settled_def)
      then show ?thesis using shrinks_trans[OF s1 s12] by (simp add: propagates_def)
    next
      case False
      then have eq: "m2 = m1" using removed(6) by (simp add: w_def m1_def)
      have "length (m1 ! k) = 1 \<Longrightarrow> length (m ! k) = 1" for k
        using False m1i m1k[of k] by (cases "k = i") simp_all
      then have "newly_settled m m1" by (auto simp: newly_settled_def)
      then show ?thesis using s1 eq by (simp add: propagates_def)
    qed
    show ?thesis
    proof (rule all_ok_invariant[OF removed(7), where P = "propagates m"])
      show "propagates m m2" by (rule p2)
    next
      fix x a b
      assume pa: "propagates m a"
        and pc: "place_check (\<lambda>m' j c. assign n m' j c) v a x = Ret (Some b)"
      have la: "length a = 81" using propagates_length[OF pa] len by simp
      from place_check_Some[OF pc] have "propagates a b"
        using A[OF la] propagates_refl by blast
      with len pa show "propagates m b" by (rule propagates_trans)
    qed
  qed
  have asg: "propagates m m'"
    if len: "length m = 81" and h: "assign (Suc n) m i v = Ret (Some m')" for m i v m'
  proof (rule all_ok_invariant[OF assign_Some(2)[OF h], where P = "propagates m"])
    show "propagates m m" by (rule propagates_refl)
  next
    fix x a b
    assume pa: "propagates m a" and e: "eliminate n a i x = Ret (Some b)"
    have la: "length a = 81" using propagates_length[OF pa] len by simp
    have "propagates a b" using la e by (rule E)
    with len pa show "propagates m b" by (rule propagates_trans)
  qed
  from elim asg show ?case by blast
qed

lemma assign_propagates:
  "length m = 81 \<Longrightarrow> assign n m i v = Ret (Some m') \<Longrightarrow> propagates m m'"
  using propagate_settles by blast

lemma solve_propagates:
  assumes "length m = 81" and "solve d p (Some m) = Ret (Some m')"
  shows "propagates m m' \<and> solved m'"
proof -
  have "(propagates m m' \<and> length m' = 81) \<and> solved m'"
  proof (rule solve_invariant[OF assms(2), where P = "\<lambda>a. propagates m a \<and> length a = 81"])
    show "propagates m m \<and> length m = 81" using assms(1) by (simp add: propagates_refl)
  next
    fix a i v b
    assume pa: "propagates m a \<and> length a = 81" and e: "assign p a i v = Ret (Some b)"
    then have pab: "propagates a b" using assign_propagates by blast
    then have "length b = 81" using pa propagates_length by simp
    moreover have "propagates m b" using assms(1) pa pab propagates_trans by blast
    ultimately show "propagates m b \<and> length b = 81" by simp
  qed
  then show ?thesis by simp
qed

lemma distinct_filter_map:
  "distinct (filter P (map f u)) \<Longrightarrow> j \<in> set u \<Longrightarrow> k \<in> set u \<Longrightarrow> j \<noteq> k \<Longrightarrow> P (f j)
   \<Longrightarrow> f j \<noteq> f k"
proof (induction u)
  case Nil
  then show ?case by simp
next
  case (Cons a u)
  show ?case
  proof
    assume eq: "f j = f k"
    then have Pk: "P (f k)" using Cons.prems(5) by simp
    have da: "P (f a) \<Longrightarrow> f a \<notin> f ` {x \<in> set u. P (f x)}" and du: "distinct (filter P (map f u))"
      using Cons.prems(1) by (auto split: if_splits)
    consider "j = a" "k \<in> set u" | "k = a" "j \<in> set u" | "j \<in> set u" "k \<in> set u"
      using Cons.prems(2,3,4) by auto
    then show False
    proof cases
      case 1
      have "f k \<in> f ` {x \<in> set u. P (f x)}" using 1(2) Pk by blast
      moreover have "f a \<notin> f ` {x \<in> set u. P (f x)}" using da Cons.prems(5) 1(1) by blast
      ultimately show ?thesis using eq 1(1) by metis
    next
      case 2
      have "f j \<in> f ` {x \<in> set u. P (f x)}" using 2(2) Cons.prems(5) by blast
      moreover have "f a \<notin> f ` {x \<in> set u. P (f x)}" using da Pk 2(1) by blast
      ultimately show ?thesis using eq 2(1) by metis
    next
      case 3
      then show ?thesis using Cons.IH[OF du _ _ Cons.prems(4,5)] eq by simp
    qed
  qed
qed

lemma determined_distinct_peers:
  assumes "determined_distinct m" and "k < 81" and "j \<in> set (aoe k)" and "length (m ! j) = 1"
  shows "m ! j \<noteq> m ! k"
proof -
  from assms(2,3) obtain u where u: "u \<in> set all_units" "j \<in> set u" "k \<in> set u" "j \<noteq> k"
    by (rule aoe_same_unit)
  have "distinct (filter (\<lambda>s. length s = 1) (map (\<lambda>j. m ! j) u))"
    using assms(1) u(1) by (simp add: determined_distinct_def list_all_iff)
  then show ?thesis using u(2,3,4) assms(4) by (rule distinct_filter_map)
qed

lemma propagates_peers_differ:
  assumes len: "length m = 81" and dd: "determined_distinct m" and pr: "propagates m m'"
    and k: "k < 81" and j: "j \<in> set (aoe k)"
    and k1: "length (m' ! k) = 1" and j1: "length (m' ! j) = 1"
  shows "m' ! j \<noteq> m' ! k"
proof
  assume eq: "m' ! j = m' ! k"
  have jb: "j < 81" using j by (rule aoe_bound)
  have kj: "k \<in> set (aoe j)" using k j by (rule aoe_sym)
  have sh: "shrinks m m'" and ns: "newly_settled m m'" using pr by (simp_all add: propagates_def)
  have hdk: "hd (m' ! k) \<in> set (m' ! k)" using k1 by (cases "m' ! k") auto
  show False
  proof (cases "length (m ! k) = 1")
    case False
    then have "settled m' k" using ns k k1 by (simp add: newly_settled_def)
    then have "hd (m' ! k) \<notin> set (m' ! j)" using j by (simp add: settled_def)
    then show False using eq hdk by simp
  next
    case True
    show False
    proof (cases "length (m ! j) = 1")
      case False
      then have "settled m' j" using ns jb j1 by (simp add: newly_settled_def)
      then have "hd (m' ! j) \<notin> set (m' ! k)" using kj by (simp add: settled_def)
      then show False using eq hdk by simp
    next
      case j1m: True
      have "m' ! k = m ! k" using shrinks_nth[OF sh, of k] k len True by (simp add: cell_shrinks_one)
      moreover have "m' ! j = m ! j"
        using shrinks_nth[OF sh, of j] jb len j1m by (simp add: cell_shrinks_one)
      ultimately have "m ! j = m ! k" using eq by simp
      then show False using determined_distinct_peers[OF dd k j j1m] by simp
    qed
  qed
qed

lemma distinct_count_list: "distinct xs \<Longrightarrow> x \<in> set xs \<Longrightarrow> count_list xs x = 1"
  by (induction xs) (auto simp: count_list_0_iff)

lemma concat_singletons:
  "\<forall>j\<in>set u. length (f j) = 1 \<Longrightarrow> concat (map f u) = map (\<lambda>j. hd (f j)) u"
  by (induction u) (auto simp: length_Suc_conv)

lemma full_unit:
  assumes "distinct xs" and "set xs \<subseteq> set fullset" and "length xs = 9"
  shows "list_all (\<lambda>d. count_list xs d = 1) fullset"
proof -
  have "card (set xs) = 9" using assms(1,3) by (simp add: distinct_card)
  moreover have "card (set fullset) = 9" by (simp add: fullset_def)
  ultimately have "set xs = set fullset" using assms(2) by (intro card_subset_eq) simp_all
  then show ?thesis using assms(1) by (simp add: list_all_iff distinct_count_list)
qed

lemma solved_unit_complete:
  assumes u: "u \<in> set all_units" and len: "length m = 81" and sol: "solved m"
    and digits: "\<forall>s\<in>set m. set s \<subseteq> set fullset"
    and diff: "\<And>j k. k < 81 \<Longrightarrow> j \<in> set (aoe k) \<Longrightarrow> m ! j \<noteq> m ! k"
  shows "unit_complete m u"
proof -
  have b: "j < 81" if "j \<in> set u" for j using unit_facts(3)[OF u that] .
  have one: "\<forall>j\<in>set u. length (m ! j) = 1"
    using sol b len by (auto simp: solved_def list_all_iff)
  have c: "concat (map (\<lambda>j. m ! j) u) = map (\<lambda>j. hd (m ! j)) u"
    using one by (rule concat_singletons)
  have inj: "inj_on (\<lambda>j. hd (m ! j)) (set u)"
  proof (rule inj_onI)
    fix j k assume jk: "j \<in> set u" "k \<in> set u" "hd (m ! j) = hd (m ! k)"
    show "j = k"
    proof (rule ccontr)
      assume "j \<noteq> k"
      with u jk(1,2) have "j \<in> set (aoe k)" by (rule same_unit_aoe)
      then have "m ! j \<noteq> m ! k" using diff b[OF jk(2)] by simp
      moreover have "m ! j = [hd (m ! j)]" "m ! k = [hd (m ! k)]"
        using one jk(1,2) by (simp_all add: length_one)
      ultimately show False using jk(3) by simp
    qed
  qed
  have d: "distinct (map (\<lambda>j. hd (m ! j)) u)"
    using inj unit_facts(2)[OF u] by (simp add: distinct_map)
  have s: "set (map (\<lambda>j. hd (m ! j)) u) \<subseteq> set fullset"
  proof
    fix x assume "x \<in> set (map (\<lambda>j. hd (m ! j)) u)"
    then obtain j where j: "j \<in> set u" "x = hd (m ! j)" by auto
    have "m ! j = [x]" using one j by (simp add: length_one)
    moreover have "m ! j \<in> set m" using b[OF j(1)] len by simp
    ultimately show "x \<in> set fullset" using digits by fastforce
  qed
  have "length (map (\<lambda>j. hd (m ! j)) u) = 9" using unit_facts(1)[OF u] by simp
  with d s have "list_all (\<lambda>d. count_list (map (\<lambda>j. hd (m ! j)) u) d = 1) fullset"
    by (rule full_unit)
  then show ?thesis by (simp add: unit_complete_def c)
qed

section \<open>The initial markup and the search loop\<close>

lemma scan_none:
  "\<forall>s\<in>set ss. \<not> (1 < length s \<and> length s < ml) \<Longrightarrow> scan ml mi k ss = mi"
  by (induction ss arbitrary: k) auto

lemma solve_all_nine:
  assumes "length s = 9"
  shows "solve (Suc d) p (Some (replicate 81 s)) = Raise UnboundLocalError"
proof -
  have "scan 9 None 0 (replicate 81 s) = None" using assms by (intro scan_none) simp
  moreover have "\<not> solved (replicate 81 s)" using assms by (simp add: solved_def list_all_iff)
  moreover have "replicate 81 s \<noteq> []" by simp
  ultimately show ?thesis by simp
qed

lemma markup_blank: "markup ord blank_board = Inr (replicate 81 (ord fullset))"
proof -
  have cell: "(if blank_board ! i = CHR ''0''
        then ord (filter (\<lambda>c. c \<notin> set (map (\<lambda>j. blank_board ! j) (aoe i))) fullset)
        else [blank_board ! i]) = ord fullset" if "i < 81" for i
  proof -
    have "set (map (\<lambda>j. blank_board ! j) (aoe i)) \<subseteq> {CHR ''0''}"
      using aoe_bound by (auto simp: blank_board_def)
    moreover have "CHR ''0'' \<notin> set fullset" by (simp add: fullset_def)
    ultimately have "filter (\<lambda>c. c \<notin> set (map (\<lambda>j. blank_board ! j) (aoe i))) fullset = fullset"
      by (intro filter_True) blast
    then show ?thesis using that by (simp add: blank_board_def)
  qed
  have "map (\<lambda>i. if blank_board ! i = CHR ''0''
        then ord (filter (\<lambda>c. c \<notin> set (map (\<lambda>j. blank_board ! j) (aoe i))) fullset)
        else [blank_board ! i]) [0 ..< 81] = map (\<lambda>_. ord fullset) [0 ..< 81]"
    by (rule map_cong[OF refl]) (simp add: cell del: upt_Suc)
  also have "\<dots> = replicate 81 (ord fullset)" by (simp add: map_replicate_const del: upt_Suc)
  finally have cells: "map (\<lambda>i. if blank_board ! i = CHR ''0''
        then ord (filter (\<lambda>c. c \<notin> set (map (\<lambda>j. blank_board ! j) (aoe i))) fullset)
        else [blank_board ! i]) [0 ..< 81] = replicate 81 (ord fullset)" .
  have "\<not> length blank_board < 81" by (simp add: blank_board_def)
  then show ?thesis unfolding markup_def using cells by simp
qed

lemma first_result_Some_iff:
  "first_result f vs = Ret (Some r) \<longleftrightarrow>
     (\<exists>k<length vs. f (vs ! k) = Ret (Some r) \<and> (\<forall>k'<k. f (vs ! k') = Ret None))"
proof (induction vs)
  case Nil
  show ?case by simp
next
  case (Cons v vs)
  show ?case
  proof (cases "f v")
    case (Ret x)
    show ?thesis
    proof (cases x)
      case None
      have "(\<exists>k<length (v # vs). f ((v # vs) ! k) = Ret (Some r) \<and> (\<forall>k'<k. f ((v # vs) ! k') = Ret None))
        \<longleftrightarrow> (\<exists>k<length vs. f (vs ! k) = Ret (Some r) \<and> (\<forall>k'<k. f (vs ! k') = Ret None))"
        using Ret None by (simp add: Ex_less_Suc2 All_less_Suc2)
      then show ?thesis using Ret None Cons.IH by simp
    next
      case (Some y)
      have "(\<exists>k<length (v # vs). f ((v # vs) ! k) = Ret (Some r) \<and> (\<forall>k'<k. f ((v # vs) ! k') = Ret None))
        \<longleftrightarrow> y = r"
        using Ret Some by (auto simp: Ex_less_Suc2 All_less_Suc2)
      then show ?thesis using Ret Some by simp
    qed
  next
    case (Raise e)
    then show ?thesis by (auto simp: Ex_less_Suc2 All_less_Suc2)
  next
    case OutOfFuel
    then show ?thesis by (auto simp: Ex_less_Suc2 All_less_Suc2)
  qed
qed

lemma markup_digits:
  assumes "markup ord grid = Inr m" and "list_all (\<lambda>c. c \<in> set ''0123456789'') grid"
    and "\<And>s. mset (ord s) = mset s"
  shows "\<forall>s\<in>set m. set s \<subseteq> set fullset"
proof -
  from assms(1) have lg: "81 \<le> length grid"
    and m: "m = map (\<lambda>i. if grid ! i = CHR ''0''
                          then ord (filter (\<lambda>c. c \<notin> set (map (\<lambda>j. grid ! j) (aoe i))) fullset)
                          else [grid ! i]) [0 ..< 81]"
    by (auto simp: markup_def split: if_splits)
  have ord_set: "set (ord s) = set s" for s using assms(3)[of s] by (rule mset_eq_setD)
  define F where "F = (\<lambda>i. if grid ! i = CHR ''0''
                          then ord (filter (\<lambda>c. c \<notin> set (map (\<lambda>j. grid ! j) (aoe i))) fullset)
                          else [grid ! i])"
  have cell: "set (F i) \<subseteq> set fullset" if "i < 81" for i
  proof (cases "grid ! i = CHR ''0''")
    case True
    then show ?thesis by (auto simp: F_def ord_set)
  next
    case False
    have "grid ! i \<in> set grid" using that lg by simp
    then have "grid ! i \<in> set ''0123456789''" using assms(2) by (simp add: list_all_iff)
    then show ?thesis using False by (auto simp: F_def fullset_def)
  qed
  have mF: "m = map F [0 ..< 81]" unfolding m F_def ..
  show ?thesis
  proof
    fix s assume "s \<in> set m"
    then obtain i where "i < 81" "s = F i" unfolding mF by (auto simp del: upt_Suc)
    then show "set s \<subseteq> set fullset" using cell by simp
  qed
qed

lemma solve_keeps_fixed:
  assumes "markup ord grid = Inr m" and "i < 81" and "grid ! i \<in> set fullset"
    and "solve d p (Some m) = Ret (Some m')"
  shows "m' ! i = [grid ! i]"
proof -
  have "grid ! i \<noteq> CHR ''0''" using assms(3) by (auto simp: fullset_def)
  from markup_fixed[OF assms(1,2) this] have len: "length m = 81" and mi: "m ! i = [grid ! i]" .
  have "cell_shrinks (m ! i) (m' ! i)"
    using solve_shrinks[OF assms(4)] assms(2) len by (simp add: shrinks_nth)
  then show ?thesis using mi by (simp add: cell_shrinks_single)
qed

lemma count_concat_twice:
  "i \<in> set u \<Longrightarrow> j \<in> set u \<Longrightarrow> i \<noteq> j \<Longrightarrow> c \<in> set (f i) \<Longrightarrow> c \<in> set (f j)
   \<Longrightarrow> 2 \<le> count_list (concat (map f u)) c"
proof (induction u)
  case Nil
  then show ?case by simp
next
  case (Cons a u)
  have pos: "0 < count_list xs c" if "c \<in> set xs" for xs :: "'b list"
    using that count_list_0_iff[of xs c] by auto
  consider "i = a" "j \<in> set u" | "j = a" "i \<in> set u" | "i \<in> set u" "j \<in> set u"
    using Cons.prems(1,2,3) by auto
  then show ?case
  proof cases
    case 1
    have "0 < count_list (f a) c" using 1(1) Cons.prems(4) by (intro pos) simp
    moreover have "0 < count_list (concat (map f u)) c" using 1(2) Cons.prems(5) by (intro pos) auto
    ultimately show ?thesis by simp
  next
    case 2
    have "0 < count_list (f a) c" using 2(1) Cons.prems(5) by (intro pos) simp
    moreover have "0 < count_list (concat (map f u)) c" using 2(2) Cons.prems(4) by (intro pos) auto
    ultimately show ?thesis by simp
  next
    case 3
    then have "2 \<le> count_list (concat (map f u)) c" using Cons.IH Cons.prems(3,4,5) by simp
    then show ?thesis by simp
  qed
qed

section \<open>The claims about the propagator\<close>

text \<open>
  C7.  Eliminating a value that is not a candidate of the square is a no-op: for every
  markup \<open>m\<close>, square \<open>i\<close> of it and value \<open>v\<close> absent from \<open>m[i]\<close>,
  \<open>eliminate(m, i, v)\<close> returns \<open>m\<close> unchanged.  One level of call depth is all it needs.
\<close>

theorem eliminate_absent_noop:
  "i < length m \<Longrightarrow> v \<notin> set (m ! i) \<Longrightarrow> eliminate (Suc n) m i v = Ret (Some m)"
  by (simp add: eliminate.simps)

theorem eliminate_absent_noop_witness:
  "3 < length rectangle_markup \<and> CHR ''1'' \<notin> set (rectangle_markup ! 3)
   \<and> eliminate (Suc 0) rectangle_markup 3 (CHR ''1'') = Ret (Some rectangle_markup)"
proof -
  have h1: "3 < length rectangle_markup" by code_simp
  have h2: "CHR ''1'' \<notin> set (rectangle_markup ! 3)" by code_simp
  show ?thesis using h1 h2 eliminate_absent_noop[OF h1 h2, of 0] by simp
qed

text \<open>
  C10.  Propagation is monotonically shrinking: when \<open>eliminate(m, i, v)\<close> or
  \<open>assign(m, i, v)\<close> returns a markup, every square's candidates in the result are among
  that square's candidates in \<open>m\<close>; no candidate is ever added.
\<close>

theorem propagation_only_removes:
  "eliminate n m i v = Ret (Some m') \<or> assign n m i v = Ret (Some m')
   \<Longrightarrow> length m' = length m \<and> (\<forall>k<length m. set (m' ! k) \<subseteq> set (m ! k))"
  using eliminate_shrinks[of n m i v m'] assign_shrinks[of n m i v m']
  by (auto simp: shrinks_length dest: shrinks_set)

theorem propagation_only_removes_witness:
  "assign 12 rectangle_markup 3 (CHR ''7'') = Ret (Some rectangle_swapped)
   \<and> length rectangle_swapped = length rectangle_markup
   \<and> 3 < length rectangle_markup
   \<and> set (rectangle_swapped ! 3) \<subseteq> set (rectangle_markup ! 3)"
proof -
  have h: "assign 12 rectangle_markup 3 (CHR ''7'') = Ret (Some rectangle_swapped)"
    by code_simp
  have k: "3 < length rectangle_markup" by code_simp
  show ?thesis using h k propagation_only_removes[OF disjI2[OF h]] by blast
qed

text \<open>
  C8.  From a markup whose 81 candidate sets are non-empty sets of digits, every markup
  returned by \<open>eliminate\<close>, \<open>assign\<close> or \<open>solve\<close> again has 81 non-empty sets of digits;
  and striking out the last candidate of a square gives the FAIL result \<open>None\<close>.
\<close>

theorem returned_markups_valid:
  assumes "valid_markup m"
  shows "(eliminate n m i v = Ret (Some m') \<or> assign n m i v = Ret (Some m')
          \<or> solve d p (Some m) = Ret (Some m') \<longrightarrow> valid_markup m')
       \<and> (i < 81 \<and> set (m ! i) = {v} \<longrightarrow> eliminate (Suc n) m i v = Ret None)"
proof
  show "eliminate n m i v = Ret (Some m') \<or> assign n m i v = Ret (Some m')
          \<or> solve d p (Some m) = Ret (Some m') \<longrightarrow> valid_markup m'"
    using eliminate_shrinks[of n m i v m'] assign_shrinks[of n m i v m']
      solve_shrinks[of d p m m'] shrinks_valid[OF _ assms] by blast
next
  show "i < 81 \<and> set (m ! i) = {v} \<longrightarrow> eliminate (Suc n) m i v = Ret None"
  proof
    assume h: "i < 81 \<and> set (m ! i) = {v}"
    then have "i < length m" using assms by (simp add: valid_markup_def)
    moreover have "removeAll v (m ! i) = []"
      using h by (auto simp: removeAll_filter_not_eq filter_empty_conv)
    ultimately show "eliminate (Suc n) m i v = Ret None"
      using h by (simp add: eliminate.simps)
  qed
qed

theorem returned_markups_valid_witness:
  "valid_markup rectangle_markup
   \<and> solve 2 12 (Some rectangle_markup) = Ret (Some rectangle_swapped)
   \<and> valid_markup rectangle_swapped
   \<and> 0 < (81::nat) \<and> set (rectangle_markup ! 0) = {CHR ''5''}
   \<and> eliminate (Suc 0) rectangle_markup 0 (CHR ''5'') = Ret None"
proof -
  have v: "valid_markup rectangle_markup" by code_simp
  have s: "solve 2 12 (Some rectangle_markup) = Ret (Some rectangle_swapped)"
    by code_simp
  have c: "set (rectangle_markup ! 0) = {CHR ''5''}" by code_simp
  show ?thesis
    using v s c returned_markups_valid[OF v, where n = 0 and i = 0 and v = "CHR ''5''"
        and d = 2 and p = 12 and m' = rectangle_swapped]
    by simp
qed

section \<open>The claims about the search\<close>

text \<open>
  C5.  Fixed input digits are never altered: for every board and every square holding a
  digit \<open>1\<close> to \<open>9\<close> in it, if \<open>solve(markup(board))\<close> returns a markup, the square's
  candidate string in the result is exactly that digit.
\<close>

theorem fixed_digits_kept:
  assumes "markup ord grid = Inr m" and "i < 81" and "grid ! i \<in> set fullset"
    and "solve d p (Some m) = Ret (Some m')"
  shows "m' ! i = [grid ! i]"
proof -
  have "grid ! i \<noteq> CHR ''0''" using assms(3) by (auto simp: fullset_def)
  from markup_fixed[OF assms(1,2) this] have len: "length m = 81" and mi: "m ! i = [grid ! i]" .
  have "cell_shrinks (m ! i) (m' ! i)"
    using solve_shrinks[OF assms(4)] assms(2) len by (simp add: shrinks_nth)
  then show ?thesis using mi by (simp add: cell_shrinks_single)
qed

theorem fixed_digits_kept_witness:
  "markup id example_puzzle = Inr puzzle_markup \<and> (0::nat) < 81
   \<and> example_puzzle ! 0 \<in> set fullset
   \<and> solve 2 12 (Some puzzle_markup) = Ret (Some solution_markup)
   \<and> solution_markup ! 0 = [example_puzzle ! 0]"
proof -
  have a: "markup id example_puzzle = Inr puzzle_markup" by code_simp
  have b: "example_puzzle ! 0 \<in> set fullset" by code_simp
  have c: "solve 2 12 (Some puzzle_markup) = Ret (Some solution_markup)" by code_simp
  have z: "(0::nat) < 81" by simp
  show ?thesis using a b c fixed_digits_kept[OF a z b c] by simp
qed

text \<open>
  C9.  \<open>solve\<close> terminates on every markup (candidate strings without repeated characters):
  a search depth above the number of undetermined squares, which is at most the number of
  squares, is enough, each nested \<open>solve\<close> call working on a markup with strictly fewer
  undetermined squares; and the cascade of \<open>eliminate\<close> and \<open>assign\<close> calls terminates too,
  its depth bounded by the size of the board: twice the number of candidates plus two, and
  a board of 81 squares has at most 729 candidates.
\<close>

theorem solve_terminates:
  assumes "list_all distinct m"
  shows "(undetermined m < d \<and> 2 * total m + 1 < p \<longrightarrow> solve d p (Some m) \<noteq> OutOfFuel)
       \<and> undetermined m \<le> length m
       \<and> (scan 9 None 0 m = Some i \<and> assign p m i v = Ret (Some m')
            \<longrightarrow> undetermined m' < undetermined m)
       \<and> (2 * total m < n \<longrightarrow> eliminate n m j c \<noteq> OutOfFuel)
       \<and> (2 * total m + 1 < n \<longrightarrow> assign n m j c \<noteq> OutOfFuel)
       \<and> (valid_markup m \<longrightarrow> total m \<le> 729)"
proof -
  have dist: "\<forall>s\<in>set m. distinct s" using assms by (simp add: list_all_iff)
  have "undetermined m < d \<and> 2 * total m + 1 < p \<longrightarrow> solve d p (Some m) \<noteq> OutOfFuel"
    using solve_fuel[OF dist] by blast
  moreover have "scan 9 None 0 m = Some i \<and> assign p m i v = Ret (Some m')
            \<longrightarrow> undetermined m' < undetermined m"
    using assign_determines[OF _ dist] scan_selects[of m i] by blast
  moreover have "2 * total m < n \<longrightarrow> eliminate n m j c \<noteq> OutOfFuel"
    using propagate_fuel by blast
  moreover have "2 * total m + 1 < n \<longrightarrow> assign n m j c \<noteq> OutOfFuel"
    using propagate_fuel by blast
  ultimately show ?thesis using undetermined_le[of m] valid_total[of m] by blast
qed

theorem solve_terminates_witness:
  "list_all distinct rectangle_markup
   \<and> undetermined rectangle_markup < 5 \<and> 2 * total rectangle_markup + 1 < 172
   \<and> solve 5 172 (Some rectangle_markup) \<noteq> OutOfFuel
   \<and> undetermined rectangle_markup \<le> length rectangle_markup
   \<and> scan 9 None 0 rectangle_markup = Some 3
   \<and> assign 172 rectangle_markup 3 (CHR ''7'') = Ret (Some rectangle_swapped)
   \<and> undetermined rectangle_swapped < undetermined rectangle_markup
   \<and> eliminate 172 rectangle_markup 3 (CHR ''7'') \<noteq> OutOfFuel
   \<and> assign 172 rectangle_markup 3 (CHR ''7'') \<noteq> OutOfFuel
   \<and> valid_markup rectangle_markup \<and> total rectangle_markup \<le> 729"
proof -
  have a: "list_all distinct rectangle_markup" by code_simp
  have b: "undetermined rectangle_markup < 5" by code_simp
  have c: "2 * total rectangle_markup + 1 < 172" by code_simp
  have e: "scan 9 None 0 rectangle_markup = Some 3" by code_simp
  have f: "assign 172 rectangle_markup 3 (CHR ''7'') = Ret (Some rectangle_swapped)"
    by code_simp
  have g: "valid_markup rectangle_markup" by code_simp
  show ?thesis
    using a b c e f g
      solve_terminates[OF a, where d = 5 and p = 172 and i = 3 and v = "CHR ''7''"
        and m' = rectangle_swapped and n = 172 and j = 3 and c = "CHR ''7''"]
    by simp
qed

text \<open>
  C6, as the code has it.  In the branch state \<open>solve\<close> tries the candidates of the selected
  square in the order in which its candidate string holds them, each on the markup as it was
  before the loop (a fresh copy), and returns the first result that is not \<open>None\<close>: the
  result of the earliest candidate whose branch returns a markup, all earlier branches
  having returned \<open>None\<close>.
\<close>

theorem solve_first_in_stored_order:
  assumes "m \<noteq> []" and "\<not> solved m" and "scan 9 None 0 m = Some i"
  shows "solve (Suc d) p (Some m) = Ret (Some r) \<longleftrightarrow>
     (\<exists>k<length (m ! i). branch d p m i (m ! i ! k) = Ret (Some r)
        \<and> (\<forall>k'<k. branch d p m i (m ! i ! k') = Ret None))"
proof -
  have "solve (Suc d) p (Some m) = first_result (branch d p m i) (m ! i)"
    using assms by (simp add: branch_def[abs_def])
  then show ?thesis by (simp add: first_result_Some_iff)
qed

theorem solve_first_in_stored_order_witness:
  "rectangle_markup \<noteq> [] \<and> \<not> solved rectangle_markup
   \<and> scan 9 None 0 rectangle_markup = Some 3
   \<and> solve (Suc 1) 12 (Some rectangle_markup) = Ret (Some rectangle_swapped)
   \<and> (\<exists>k<length (rectangle_markup ! 3).
         branch 1 12 rectangle_markup 3 (rectangle_markup ! 3 ! k) = Ret (Some rectangle_swapped)
         \<and> (\<forall>k'<k. branch 1 12 rectangle_markup 3 (rectangle_markup ! 3 ! k') = Ret None))"
proof -
  have a: "rectangle_markup \<noteq> []" by code_simp
  have b: "\<not> solved rectangle_markup" by code_simp
  have c: "scan 9 None 0 rectangle_markup = Some 3" by code_simp
  have e: "solve (Suc 1) 12 (Some rectangle_markup) = Ret (Some rectangle_swapped)" by code_simp
  show ?thesis
    using a b c e solve_first_in_stored_order[OF a b c, of 1 12 rectangle_swapped] by simp
qed

text \<open>
  C6, as stated with increasing numeric order, fails: the candidate string \<open>76\<close> of square 3
  is tried as 7, then 6, and \<open>solve\<close> returns the grid with 7 there, while going through the
  candidates in increasing order would return the grid with 6.
\<close>

theorem ascending_order_counterexample:
  "scan 9 None 0 rectangle_markup = Some 3
   \<and> rectangle_markup ! 3 = ''76''
   \<and> solve (Suc 1) 12 (Some rectangle_markup) = Ret (Some rectangle_swapped)
   \<and> solve_ascending 1 12 rectangle_markup 3 = Ret (Some solution_markup)
   \<and> rectangle_swapped \<noteq> solution_markup"
proof -
  have c: "scan 9 None 0 rectangle_markup = Some 3" by code_simp
  have r: "rectangle_markup ! 3 = ''76''" by code_simp
  have e: "solve (Suc 1) 12 (Some rectangle_markup) = Ret (Some rectangle_swapped)" by code_simp
  have f: "solve_ascending 1 12 rectangle_markup 3 = Ret (Some solution_markup)" by code_simp
  have g: "rectangle_swapped \<noteq> solution_markup" by code_simp
  show ?thesis using c r e f g by simp
qed

section \<open>The claims about whole boards\<close>

text \<open>
  C1.  On the blank board every square has nine candidates, whatever the order in which the
  set of digits is traversed; the scan of lines 141-147 starts from \<open>min_len = 9\<close> and
  selects no square, so \<open>solve\<close> raises \<open>UnboundLocalError\<close> at line 153 instead of
  returning a solution.
\<close>

theorem blank_board_unbound:
  assumes "\<And>s. mset (ord s) = mset s"
  shows "markup ord blank_board = Inr (replicate 81 (ord fullset))
       \<and> solve (Suc d) p (Some (replicate 81 (ord fullset))) = Raise UnboundLocalError"
proof -
  have "length (ord fullset) = length fullset" using assms[of fullset] by (rule mset_eq_length)
  then have "length (ord fullset) = 9" by (simp add: fullset_def)
  then show ?thesis using markup_blank solve_all_nine by simp
qed

theorem blank_board_unbound_witness:
  "markup rev blank_board = Inr (replicate 81 (rev fullset))
   \<and> solve (Suc 0) 0 (Some (replicate 81 (rev fullset))) = Raise UnboundLocalError"
  using blank_board_unbound[of rev 0 0] by simp

text \<open>
  C2.  \<open>solve\<close> does raise: on the markup whose 81 squares all have the nine candidates it
  ends with \<open>UnboundLocalError\<close>, at any depth budget.
\<close>

theorem solve_unbound_min_i:
  "solve (Suc d) p (Some (replicate 81 ''123456789'')) = Raise UnboundLocalError"
  by (rule solve_all_nine) simp

text \<open>
  C3, as the code has it.  When a board holds the same fixed digit in two squares of a unit,
  every markup that \<open>solve(markup(board))\<close> returns still has that digit in both squares, so
  the unit does not hold every digit once: the board is never solved, but FAIL is not
  what must come back.
\<close>

theorem duplicate_never_solved:
  assumes "markup ord grid = Inr m" and "u \<in> set all_units" and "i \<in> set u" and "j \<in> set u"
    and "i \<noteq> j" and "grid ! i = grid ! j" and "grid ! i \<in> set fullset"
    and "solve d p (Some m) = Ret (Some m')"
  shows "m' ! i = [grid ! i] \<and> m' ! j = [grid ! i] \<and> \<not> unit_complete m' u"
proof -
  have i: "i < 81" and j: "j < 81" using unit_facts(3)[OF assms(2)] assms(3,4) by simp_all
  have mi: "m' ! i = [grid ! i]" using assms(1) i assms(7,8) by (rule solve_keeps_fixed)
  have mj: "m' ! j = [grid ! i]"
    using solve_keeps_fixed[OF assms(1) j _ assms(8)] assms(6,7) by simp
  have two: "2 \<le> count_list (concat (map (\<lambda>k. m' ! k) u)) (grid ! i)"
    using assms(3,4,5) by (rule count_concat_twice) (simp_all add: mi mj)
  have "\<not> unit_complete m' u"
  proof
    assume "unit_complete m' u"
    then have "count_list (concat (map (\<lambda>k. m' ! k) u)) (grid ! i) = 1"
      using assms(7) by (simp add: unit_complete_def list_all_iff)
    with two show False by simp
  qed
  with mi mj show ?thesis by simp
qed

theorem duplicate_never_solved_witness:
  "markup id ones_board = Inr (replicate 81 ''1'') \<and> rows ! 0 \<in> set all_units
   \<and> 0 \<in> set (rows ! 0) \<and> 1 \<in> set (rows ! 0) \<and> (0::nat) \<noteq> 1
   \<and> ones_board ! 0 = ones_board ! 1 \<and> ones_board ! 0 \<in> set fullset
   \<and> solve 1 0 (Some (replicate 81 ''1'')) = Ret (Some (replicate 81 ''1''))
   \<and> replicate 81 ''1'' ! 0 = [ones_board ! 0] \<and> replicate 81 ''1'' ! 1 = [ones_board ! 0]
   \<and> \<not> unit_complete (replicate 81 ''1'') (rows ! 0)"
proof -
  have a: "markup id ones_board = Inr (replicate 81 ''1'')" by code_simp
  have b: "rows ! 0 \<in> set all_units" by code_simp
  have c: "0 \<in> set (rows ! 0)" by code_simp
  have e: "1 \<in> set (rows ! 0)" by code_simp
  have f: "(0::nat) \<noteq> 1" by simp
  have g: "ones_board ! 0 = ones_board ! 1" by code_simp
  have h: "ones_board ! 0 \<in> set fullset" by code_simp
  have k: "solve 1 0 (Some (replicate 81 ''1'')) = Ret (Some (replicate 81 ''1''))" by code_simp
  show ?thesis
    using a b c e f g h k duplicate_never_solved[OF a b c e f g h k] by blast
qed

text \<open>
  C3, as stated, fails: the board of 81 ones has the digit 1 twice in row 0, its markup has
  one candidate in every square, and \<open>solve\<close> returns that markup, not FAIL.
\<close>

theorem duplicate_returned_counterexample:
  "ones_board ! 0 = ones_board ! 1 \<and> ones_board ! 0 \<in> set fullset
   \<and> 0 \<in> set (rows ! 0) \<and> 1 \<in> set (rows ! 0)
   \<and> markup id ones_board = Inr (replicate 81 ''1'')
   \<and> solve 1 0 (Some (replicate 81 ''1'')) = Ret (Some (replicate 81 ''1''))"
  by code_simp

text \<open>
  C4, as the code has it.  For a board of digits whose initial markup has no unit with the
  same digit in two determined squares, every markup that \<open>solve(markup(board))\<close> returns
  has each digit 1 to 9 exactly once in each of the 27 units.
\<close>

theorem solve_sound:
  assumes "markup ord grid = Inr m" and "list_all (\<lambda>c. c \<in> set ''0123456789'') grid"
    and "\<And>s. mset (ord s) = mset s" and "determined_distinct m"
    and "solve d p (Some m) = Ret (Some m')"
  shows "list_all (unit_complete m') all_units"
proof -
  have len: "length m = 81" using assms(1) by (auto simp: markup_def split: if_splits)
  have pr: "propagates m m'" and sol: "solved m'"
    using solve_propagates[OF len assms(5)] by simp_all
  have sh: "shrinks m m'" using pr by (simp add: propagates_def)
  have len': "length m' = 81" using sh len by (simp add: shrinks_length)
  have dig: "\<forall>s\<in>set m. set s \<subseteq> set fullset" using assms(1,2,3) by (rule markup_digits)
  have dig': "\<forall>s\<in>set m'. set s \<subseteq> set fullset"
  proof
    fix s' assume "s' \<in> set m'"
    then obtain k where k: "k < 81" "s' = m' ! k" using len' by (auto simp: in_set_conv_nth)
    then have "set s' \<subseteq> set (m ! k)" using shrinks_set[OF sh, of k] len by simp
    moreover have "m ! k \<in> set m" using k len by simp
    ultimately show "set s' \<subseteq> set fullset" using dig by blast
  qed
  have one: "length (m' ! k) = 1" if "k < 81" for k
    using sol that len' by (simp add: solved_def list_all_length)
  have diff: "m' ! j \<noteq> m' ! k" if "k < 81" "j \<in> set (aoe k)" for j k
    using len assms(4) pr that one[OF that(1)] one[OF aoe_bound[OF that(2)]]
    by (rule propagates_peers_differ)
  have "unit_complete m' u" if "u \<in> set all_units" for u
    using that len' sol dig' diff by (rule solved_unit_complete)
  then show ?thesis by (simp add: list_all_iff)
qed

theorem solve_sound_witness:
  "markup id example_puzzle = Inr puzzle_markup
   \<and> list_all (\<lambda>c. c \<in> set ''0123456789'') example_puzzle
   \<and> determined_distinct puzzle_markup
   \<and> solve 2 12 (Some puzzle_markup) = Ret (Some solution_markup)
   \<and> list_all (unit_complete solution_markup) all_units"
proof -
  have a: "markup id example_puzzle = Inr puzzle_markup" by code_simp
  have b: "list_all (\<lambda>c. c \<in> set ''0123456789'') example_puzzle" by code_simp
  have c: "determined_distinct puzzle_markup" by code_simp
  have e: "solve 2 12 (Some puzzle_markup) = Ret (Some solution_markup)" by code_simp
  have o: "\<And>s. mset (id s) = mset s" by simp
  show ?thesis using a b c e solve_sound[OF a b o c e] by blast
qed

text \<open>
  C4, as stated, fails: the solved grid with a second 5 written into row 0 has no empty
  square, \<open>solve\<close> returns its markup as it is, and row 0 holds 5 twice.
\<close>

theorem invalid_result_counterexample:
  "markup id twin_board = Inr twin_markup
   \<and> solve 1 0 (Some twin_markup) = Ret (Some twin_markup)
   \<and> \<not> unit_complete twin_markup (rows ! 0)"
  by code_simp

end
